theory Spec2Isabelle
  imports Main
begin

section \<open>The host: values, effects and the event loop\<close>

text \<open>
  The Task class is generic in its error type \<open>E\<close>, its value type \<open>V\<close> and its
  progress type \<open>P\<close>. What reaches a reject sink, or is thrown, is either a value of
  \<open>E\<close>, the JavaScript \<open>null\<close> (Task.filter passes it), or a \<open>TypeError\<close>
  of the engine (calling a sink that is undefined).
\<close>

datatype 'e reason = Null | TypeError | Value 'e

text \<open>
  A call of one of the caller's own sinks, as an observer of the program sees it.
\<close>

datatype ('e, 'v, 'p) call = Reject "'e reason" | Resolve 'v | Progress 'p

text \<open>
  The effects a piece of code has, in the order it has them: a call that the outside
  observes, a throw (which ends the synchronous block it occurs in, up to the nearest
  enclosing catch), and the scheduling of a callback with the host. A synchronous block
  of code is the list of its effects.
\<close>

datatype ('e, 'x) action =
    Call 'x
  | Throw "'e reason"
  | Immediate "('e, 'x) action list"

type_synonym ('e, 'x) prog = "('e, 'x) action list"

record ('e, 'x) world =
  log :: "'x list"
  queue :: "('e, 'x) prog list"
  uncaught :: "'e reason list"

text \<open>
  Modelled from the spec: \<open>immediate\<close> is imported from the utils module, which is not
  part of the sources at hand. The spec describes it as the scheduling primitive that
  defers its callback to the next turn of the event loop: the callback is appended to the
  host's queue and nothing of it runs now.
\<close>

definition immediate :: "('e, 'x) prog \<Rightarrow> ('e, 'x) prog" where
  "immediate callback = [Immediate callback]"

text \<open>
  Running a synchronous block: the result is the world it leaves and the exception that
  ended it, if one did.
\<close>

fun exec :: "('e, 'x) prog \<Rightarrow> ('e, 'x) world \<Rightarrow> ('e, 'x) world \<times> 'e reason option" where
  "exec [] w = (w, None)"
| "exec (Call x # rest) w = exec rest (w\<lparr>log := log w @ [x]\<rparr>)"
| "exec (Throw e # rest) w = (w, Some e)"
| "exec (Immediate callback # rest) w = exec rest (w\<lparr>queue := queue w @ [callback]\<rparr>)"

text \<open>
  \<open>try { body } catch (e) { handler(e) }\<close>: the effects of the body up to its first throw,
  then those of the handler. Callbacks the body has scheduled run later, outside the try.
\<close>

fun try_catch :: "('e, 'x) prog \<Rightarrow> ('e reason \<Rightarrow> ('e, 'x) prog) \<Rightarrow> ('e, 'x) prog" where
  "try_catch [] handler = []"
| "try_catch (Throw e # rest) handler = handler e"
| "try_catch (a # rest) handler = a # try_catch rest handler"

text \<open>
  One turn of the event loop: the oldest scheduled callback runs to its end; an exception
  that leaves it has escaped to the scheduler.
\<close>

definition turn :: "('e, 'x) world \<Rightarrow> ('e, 'x) world" where
  "turn w =
     (case queue w of
        [] \<Rightarrow> w
      | callback # waiting \<Rightarrow>
          (case exec callback (w\<lparr>queue := waiting\<rparr>) of
             (w', None) \<Rightarrow> w'
           | (w', Some e) \<Rightarrow> w'\<lparr>uncaught := uncaught w' @ [e]\<rparr>))"

definition start :: "('e, 'x) prog \<Rightarrow> ('e, 'x) world" where
  "start main = turn \<lparr>log = [], queue = [main], uncaught = []\<rparr>"

section \<open>Task\<close>

record ('e, 'v, 'p, 'x) TaskSinks =
  reject :: "'e reason \<Rightarrow> ('e, 'x) prog"
  resolve :: "'v \<Rightarrow> ('e, 'x) prog"
  progress :: "('p \<Rightarrow> ('e, 'x) prog) option"

type_synonym ('e, 'v, 'p, 'x) TaskComputation =
  "('e, 'v, 'p, 'x) TaskSinks \<Rightarrow> ('e, 'x) prog"

datatype 'v TaskPredicate = Fn "'v \<Rightarrow> bool" | Literal 'v

datatype ('e, 'v, 'p, 'x) Task = Task (fn: "('e, 'v, 'p, 'x) TaskComputation")

text \<open>
  Modelled from the spec: \<open>isEqual\<close> is imported from the utils module, which is not part
  of the sources at hand. The spec describes it as the shared equality-test helper, a
  structural comparison; applied to one argument it is the test against that value.
\<close>

definition isEqual :: "'a \<Rightarrow> 'a \<Rightarrow> bool" where
  "isEqual a b = (a = b)"

definition run :: "('e, 'v, 'p, 'x) Task \<Rightarrow> ('e, 'v, 'p, 'x) TaskSinks \<Rightarrow> ('e, 'x) prog" where
  "run task sinks = immediate (try_catch (fn task sinks) (\<lambda>e. reject sinks e))"

definition Task_of :: "'v \<Rightarrow> ('e, 'v, 'p, 'x) Task" where
  "Task_of val = Task (\<lambda>sinks. resolve sinks val)"

text \<open>
  The tag \<open>Fn\<close> of a predicate stands for \<open>typeof predicate === 'function'\<close>; a
  \<open>Literal\<close> is any other value.
\<close>

definition filterFn :: "'v TaskPredicate \<Rightarrow> 'v \<Rightarrow> bool" where
  "filterFn predicate = (case predicate of Fn f \<Rightarrow> f | Literal c \<Rightarrow> isEqual c)"

definition Task_filter ::
  "'v TaskPredicate \<Rightarrow> ('e, 'v, 'p, 'x) Task \<Rightarrow> ('e, 'v, 'p, 'x) Task" where
  "Task_filter predicate source =
     (let keep = filterFn predicate
      in Task (\<lambda>sinks.
           run source
             \<lparr>reject = reject sinks,
              resolve = (\<lambda>val. if keep val then resolve sinks val else reject sinks Null),
              progress = progress sinks\<rparr>))"

definition validate ::
  "'v TaskPredicate \<Rightarrow> ('e, 'v, 'p, 'x) Task \<Rightarrow> ('e, 'v, 'p, 'x) Task" where
  "validate predicate source = Task_filter predicate source"

definition Task_create :: "('e, 'v, 'p, 'x) TaskComputation \<Rightarrow> ('e, 'v, 'p, 'x) Task" where
  "Task_create computation = Task computation"

text \<open>
  The sinks of a caller who only watches: each one reports its call and returns.
\<close>

definition watching :: "('e, 'v, 'p, ('e, 'v, 'p) call) TaskSinks" where
  "watching =
     \<lparr>reject = (\<lambda>err. [Call (Reject err)]),
      resolve = (\<lambda>val. [Call (Resolve val)]),
      progress = Some (\<lambda>prg. [Call (Progress prg)])\<rparr>"

text \<open>
  A computation that is written without looking at what its sinks do is a script: a
  block of sink calls, throws and scheduled callbacks. \<open>perform\<close> runs it against the
  sinks it is given; calling the progress sink when the caller supplied none is the
  engine's TypeError.
\<close>

fun invoke :: "('e, 'v, 'p, 'x) TaskSinks \<Rightarrow> ('e, 'v, 'p) call \<Rightarrow> ('e, 'x) prog" where
  "invoke sinks (Reject err) = reject sinks err"
| "invoke sinks (Resolve val) = resolve sinks val"
| "invoke sinks (Progress prg) =
     (case progress sinks of None \<Rightarrow> [Throw TypeError] | Some f \<Rightarrow> f prg)"

fun perform ::
  "('e, 'v, 'p, 'x) TaskSinks \<Rightarrow> ('e, ('e, 'v, 'p) call) prog \<Rightarrow> ('e, 'x) prog" where
  "perform sinks [] = []"
| "perform sinks (Call c # rest) = invoke sinks c @ perform sinks rest"
| "perform sinks (Throw e # rest) = Throw e # perform sinks rest"
| "perform sinks (Immediate callback # rest) =
     Immediate (perform sinks callback) # perform sinks rest"

definition scripted :: "('e, ('e, 'v, 'p) call) prog \<Rightarrow> ('e, 'v, 'p, 'x) Task" where
  "scripted script = Task_create (\<lambda>sinks. perform sinks script)"

text \<open>
  What Task.filter is said to do to the calls of its source: a resolve with a value the
  test refuses becomes a reject with \<open>null\<close>; every other call is passed on as it is.
\<close>

definition settle :: "('v \<Rightarrow> bool) \<Rightarrow> ('e, 'v, 'p) call \<Rightarrow> ('e, 'v, 'p) call" where
  "settle keep c =
     (case c of
        Resolve val \<Rightarrow> if keep val then Resolve val else Reject Null
      | _ \<Rightarrow> c)"

fun relabel :: "('x \<Rightarrow> 'y) \<Rightarrow> ('e, 'x) prog \<Rightarrow> ('e, 'y) prog" where
  "relabel f [] = []"
| "relabel f (Call c # rest) = Call (f c) # relabel f rest"
| "relabel f (Throw e # rest) = Throw e # relabel f rest"
| "relabel f (Immediate callback # rest) =
     Immediate (relabel f callback) # relabel f rest"

text \<open>Computations used as concrete inputs.\<close>

definition resolve_then_throw :: "(string, nat, unit, (string, nat, unit) call) Task" where
  "resolve_then_throw =
     Task_create (\<lambda>sinks. resolve sinks 1 @ [Throw (Value ''boom'')])"

definition throw_at_once :: "(string, nat, unit, (string, nat, unit) call) Task" where
  "throw_at_once = Task_create (\<lambda>sinks. [Throw (Value ''boom'')])"

definition idle :: "(string, (string, nat, unit) call) world" where
  "idle = \<lparr>log = [], queue = [], uncaught = []\<rparr>"

section \<open>Signal\<close>

text \<open>
  The module src/data/signal is not among the sources at hand; its tests
  (src/tests/data/signal.spec.ts) are. Every definition of this section is therefore
  taken from the specification, and checked against those tests.
\<close>

subsection \<open>Nodes and the graph\<close>

type_synonym sid = nat
type_synonym oid = nat

text \<open>
  Modelled from the spec: the signal module is missing; this is how a derived node reacts
  to a push of its parent, one constructor for each combinator of section 4.2 and
  \<open>Source\<close> for a node made by \<open>create\<close>. All nodes of a graph carry values of one
  type.
\<close>

datatype 'a transform =
    Source
  | Map "'a \<Rightarrow> 'a"
  | Filter "'a \<Rightarrow> bool"
  | Fold "'a \<Rightarrow> 'a \<Rightarrow> 'a"
  | DropRepeats
  | Merge
  | Debounce nat

datatype notice = Always | Changed

text \<open>
  Modelled from the spec: the signal module is missing; this is the node of section 3.
  \<open>sig_value\<close> is the field \<open>value: T | undefined\<close>, \<open>None\<close> before any push of a
  signal created without an initial value, so that \<open>hasValue\<close> is read off it. The
  parent owns the ordered list of its children, which are handles into the arena of the
  graph (design note of section 9). The observers are the callbacks registered by
  onValue and onNext (\<open>Always\<close>) and by onChange (\<open>Changed\<close>), in registration order.
  \<open>pending\<close> is the timer slot of a debounce node: the time at which the timer is due
  and the value it carries.
\<close>

record 'a Signal =
  sig_value :: "'a option"
  children :: "sid list"
  transform :: "'a transform"
  observers :: "(notice \<times> oid) list"
  pending :: "(nat \<times> 'a) option"

text \<open>
  Modelled from the spec: the signal module is missing. What an outside observer can see
  of a run: each push a node receives, and each call of a registered observer, in order.
\<close>

datatype 'a entry = Pushed sid 'a | Called sid oid 'a

fun place :: "'a entry \<Rightarrow> sid" where
  "place (Pushed s v) = s"
| "place (Called s ob v) = s"

record 'a graph =
  nodes :: "'a Signal list"
  history :: "'a entry list"
  now :: nat

definition hasValue :: "'a Signal \<Rightarrow> bool" where
  "hasValue n = (sig_value n \<noteq> None)"

definition get :: "'a graph \<Rightarrow> sid \<Rightarrow> 'a option" where
  "get g s = sig_value (nodes g ! s)"

subsection \<open>push and the propagation wave\<close>

definition set_value :: "'a graph \<Rightarrow> sid \<Rightarrow> 'a \<Rightarrow> 'a graph" where
  "set_value g s v =
     g\<lparr>nodes := (nodes g)[s := (nodes g ! s)\<lparr>sig_value := Some v\<rparr>],
       history := history g @ [Pushed s v]\<rparr>"

text \<open>
  Modelled from the spec: the signal module is missing. The observers of a node fire in
  registration order; one registered by onChange only when the new value differs from the
  value the node held before the push.
\<close>

definition notify :: "'a graph \<Rightarrow> sid \<Rightarrow> 'a option \<Rightarrow> 'a \<Rightarrow> 'a graph" where
  "notify g s previous v =
     g\<lparr>history := history g @
         map (\<lambda>(w, ob). Called s ob v)
           (filter (\<lambda>(w, ob). w = Always \<or> previous \<noteq> Some v) (observers (nodes g ! s)))\<rparr>"

definition schedule :: "'a graph \<Rightarrow> sid \<Rightarrow> nat \<Rightarrow> 'a \<Rightarrow> 'a graph" where
  "schedule g c ms v =
     g\<lparr>nodes := (nodes g)[c := (nodes g ! c)\<lparr>pending := Some (now g + ms, v)\<rparr>]\<rparr>"

text \<open>
  Modelled from the spec: the signal module is missing. The registered transform of a
  child, invoked with the value pushed to its parent (section 4.2): map pushes the image,
  filter pushes the value if the predicate holds and does nothing otherwise, fold pushes
  the combination of the child's own value with the parent's, dropRepeats pushes the
  value unless the child holds an equal one, merge pushes the value, debounce replaces
  its one timer by a new one that carries the value. A handle that names no node is the
  failure \<open>None\<close>.
\<close>

definition deliver ::
  "('a graph \<Rightarrow> sid \<Rightarrow> 'a \<Rightarrow> 'a graph option) \<Rightarrow> 'a graph \<Rightarrow> sid \<Rightarrow> 'a \<Rightarrow> 'a graph option" where
  "deliver push_child g c v =
     (if c < length (nodes g) then
        (case transform (nodes g ! c) of
           Source \<Rightarrow> Some g
         | Map f \<Rightarrow> push_child g c (f v)
         | Filter p \<Rightarrow> if p v then push_child g c v else Some g
         | Fold f \<Rightarrow>
             (case sig_value (nodes g ! c) of
                None \<Rightarrow> Some g
              | Some acc \<Rightarrow> push_child g c (f acc v))
         | DropRepeats \<Rightarrow>
             if sig_value (nodes g ! c) = Some v then Some g else push_child g c v
         | Merge \<Rightarrow> push_child g c v
         | Debounce ms \<Rightarrow> Some (schedule g c ms v))
      else None)"

fun propagate :: "('g \<Rightarrow> sid \<Rightarrow> 'g option) \<Rightarrow> 'g \<Rightarrow> sid list \<Rightarrow> 'g option" where
  "propagate step g [] = Some g"
| "propagate step g (c # cs) =
     (case step g c of None \<Rightarrow> None | Some g' \<Rightarrow> propagate step g' cs)"

text \<open>
  Modelled from the spec: the signal module is missing. \<open>push\<close> sets the value of the
  signal and then, for every child in insertion order, invokes the child's transform,
  which pushes into the child by the same mechanism: depth first, a child's whole subtree
  before its next sibling. The spec does not say when the observers of the node fire; the
  debounce test reads, inside an observer of a node, a fold child of that node and
  expects it updated, so they fire after the children.

  The recursion is bounded by \<open>depth\<close>, and \<open>None\<close> is the wave that did not come to
  an end within it. \<open>push\<close> allows as many levels as the graph has nodes, which every
  wave in an acyclic graph stays within; on a cycle, where the spec has unbounded
  recursion, the result is \<open>None\<close>.
\<close>

primrec wave :: "nat \<Rightarrow> 'a graph \<Rightarrow> sid \<Rightarrow> 'a \<Rightarrow> 'a graph option" where
  "wave 0 = (\<lambda>g s v. None)"
| "wave (Suc depth) = (\<lambda>g s v.
     if s < length (nodes g) then
       (case propagate (\<lambda>g' c. deliver (wave depth) g' c v) (set_value g s v)
               (children (nodes g ! s)) of
          None \<Rightarrow> None
        | Some g' \<Rightarrow> Some (notify g' s (sig_value (nodes g ! s)) v))
     else None)"

definition push :: "'a graph \<Rightarrow> sid \<Rightarrow> 'a \<Rightarrow> 'a graph option" where
  "push g s v = wave (length (nodes g)) g s v"

fun pushes :: "'a graph \<Rightarrow> (sid \<times> 'a) list \<Rightarrow> 'a graph option" where
  "pushes g [] = Some g"
| "pushes g ((s, v) # rest) =
     (case push g s v of None \<Rightarrow> None | Some g' \<Rightarrow> pushes g' rest)"

subsection \<open>create and the combinators\<close>

definition fresh :: "'a option \<Rightarrow> 'a transform \<Rightarrow> 'a Signal" where
  "fresh initial t =
     \<lparr>sig_value = initial, children = [], transform = t, observers = [], pending = None\<rparr>"

definition empty_graph :: "'a graph" where
  "empty_graph = \<lparr>nodes = [], history = [], now = 0\<rparr>"

text \<open>
  Modelled from the spec: the signal module is missing. \<open>create(initial?)\<close> returns a
  new node, with the initial value if one is supplied.
\<close>

definition create :: "'a graph \<Rightarrow> 'a option \<Rightarrow> 'a graph \<times> sid" where
  "create g initial = (g\<lparr>nodes := nodes g @ [fresh initial Source]\<rparr>, length (nodes g))"

definition link :: "sid \<Rightarrow> 'a Signal list \<Rightarrow> sid \<Rightarrow> 'a Signal list" where
  "link child ns parent =
     ns[parent := (ns ! parent)\<lparr>children := children (ns ! parent) @ [child]\<rparr>]"

text \<open>
  Modelled from the spec: the signal module is missing. A combinator creates a new child,
  appends it to the children of its parent or parents, and returns it. The spec gives the
  value a child starts with for fold only (the seed); the other children start without
  one.
\<close>

definition derive ::
  "'a graph \<Rightarrow> sid list \<Rightarrow> 'a transform \<Rightarrow> 'a option \<Rightarrow> 'a graph \<times> sid" where
  "derive g parents t initial =
     (g\<lparr>nodes := foldl (link (length (nodes g))) (nodes g) parents @ [fresh initial t]\<rparr>,
      length (nodes g))"



definition fold_signal ::
  "'a graph \<Rightarrow> sid \<Rightarrow> ('a \<Rightarrow> 'a \<Rightarrow> 'a) \<Rightarrow> 'a \<Rightarrow> 'a graph \<times> sid" where
  "fold_signal g s combine seed = derive g [s] (Fold combine) (Some seed)"




subsection \<open>Observers\<close>

definition register :: "'a graph \<Rightarrow> sid \<Rightarrow> notice \<Rightarrow> oid \<Rightarrow> 'a graph" where
  "register g s w ob =
     g\<lparr>nodes := (nodes g)[s := (nodes g ! s)\<lparr>observers := observers (nodes g ! s) @ [(w, ob)]\<rparr>]\<rparr>"

definition call_now :: "'a graph \<Rightarrow> sid \<Rightarrow> oid \<Rightarrow> 'a graph" where
  "call_now g s ob =
     (case sig_value (nodes g ! s) of
        None \<Rightarrow> g
      | Some v \<Rightarrow> g\<lparr>history := history g @ [Called s ob v]\<rparr>)"

text \<open>
  Modelled from the spec: the signal module is missing. onValue and onChange call the
  observer at once with the value the signal holds, if it holds one, and register it;
  onNext only registers it.
\<close>

definition onValue :: "'a graph \<Rightarrow> sid \<Rightarrow> oid \<Rightarrow> 'a graph" where
  "onValue g s ob = register (call_now g s ob) s Always ob"


definition onNext :: "'a graph \<Rightarrow> sid \<Rightarrow> oid \<Rightarrow> 'a graph" where
  "onNext g s ob = register g s Always ob"

subsection \<open>The clock and the timers of debounce\<close>



subsection \<open>Reading a run\<close>

fun pushed_values :: "sid \<Rightarrow> 'a entry list \<Rightarrow> 'a list" where
  "pushed_values s [] = []"
| "pushed_values s (Pushed n v # es) =
     (if n = s then v # pushed_values s es else pushed_values s es)"
| "pushed_values s (Called n ob v # es) = pushed_values s es"

fun calls_of :: "sid \<Rightarrow> oid \<Rightarrow> 'a entry list \<Rightarrow> 'a list" where
  "calls_of s ob [] = []"
| "calls_of s ob (Pushed n v # es) = calls_of s ob es"
| "calls_of s ob (Called n ob' v # es) =
     (if n = s \<and> ob' = ob then v # calls_of s ob es else calls_of s ob es)"



subsection \<open>Graphs the combinators build\<close>

text \<open>
  The handles are given out in order of creation, so a child is younger than its
  parents, and a parent's children are listed from the oldest to the youngest.
\<close>

definition well_formed :: "'a graph \<Rightarrow> bool" where
  "well_formed g =
     (\<forall>p < length (nodes g). sorted (children (nodes g ! p)) \<and>
        (\<forall>c \<in> set (children (nodes g ! p)). p < c \<and> c < length (nodes g)))"

definition shape :: "'a graph \<Rightarrow> (sid list \<times> 'a transform \<times> (notice \<times> oid) list) list" where
  "shape g = map (\<lambda>n. (children n, transform n, observers n)) (nodes g)"

text \<open>
  A set of nodes that contains the children of its members, and what lies outside such a
  set: \<open>frame S g g'\<close> says that \<open>g'\<close> differs from \<open>g\<close> at most in the values and
  timers of the nodes in \<open>S\<close> and in the history of those nodes.
\<close>

definition self_contained :: "'a graph \<Rightarrow> sid set \<Rightarrow> bool" where
  "self_contained g S =
     (\<forall>n \<in> S. n < length (nodes g) \<longrightarrow> set (children (nodes g ! n)) \<subseteq> S)"

definition off :: "sid set \<Rightarrow> 'a entry list \<Rightarrow> 'a entry list" where
  "off S es = filter (\<lambda>e. place e \<notin> S) es"

definition here :: "sid \<Rightarrow> 'a entry list \<Rightarrow> 'a entry list" where
  "here s es = filter (\<lambda>e. place e = s) es"

definition frame :: "sid set \<Rightarrow> 'a graph \<Rightarrow> 'a graph \<Rightarrow> bool" where
  "frame S g g' =
     (shape g' = shape g \<and> now g' = now g \<and>
      (\<forall>n. n \<notin> S \<longrightarrow> n < length (nodes g) \<longrightarrow> nodes g' ! n = nodes g ! n) \<and>
      off S (history g') = off S (history g))"

text \<open>
  The running values of a fold: each is the combination of the one before it with the
  next value pushed.
\<close>

fun running :: "('a \<Rightarrow> 'a \<Rightarrow> 'a) \<Rightarrow> 'a \<Rightarrow> 'a list \<Rightarrow> 'a list" where
  "running f acc [] = []"
| "running f acc (v # vs) = f acc v # running f (f acc v) vs"



text \<open>
  \<open>c\<close> is a child of \<open>p\<close>, once, and of no other node: as every node is that map,
  filter, fold, dropRepeats or debounce make of \<open>p\<close>.
\<close>

definition sole_child :: "'a graph \<Rightarrow> sid \<Rightarrow> sid \<Rightarrow> bool" where
  "sole_child g p c =
     (\<forall>n < length (nodes g). count_list (children (nodes g ! n)) c = (if n = p then 1 else 0))"

subsection \<open>The graphs of the tests\<close>






definition append_text :: "string \<Rightarrow> string \<Rightarrow> string" where
  "append_text acc next = acc @ next"

definition hello_graph :: "string graph" where
  "hello_graph = fst (fold_signal (fst (create empty_graph None)) 0 append_text [])"



section \<open>Properties of the host\<close>

lemma exec_append:
  "exec (p @ q) w =
     (case exec p w of (w1, None) \<Rightarrow> exec q w1 | (w1, Some e) \<Rightarrow> (w1, Some e))"
  by (induction p w rule: exec.induct) simp_all



lemma perform_filter_sinks:
  "perform
     \<lparr>reject = reject sinks,
      resolve = (\<lambda>val. if keep val then resolve sinks val else reject sinks Null),
      progress = progress sinks\<rparr> script =
   perform sinks (relabel (settle keep) script)"
  by (induction sinks script rule: perform.induct)
     (auto simp: settle_def split: call.splits)

section \<open>Task.run\<close>

text \<open>
  C6. Task.run does not start the wrapped computation within the call: all it does is hand
  one callback to \<open>immediate\<close>. Whatever world the call is made in, it returns normally
  and leaves the world as it was but for that callback at the end of the host's queue, so
  the code after the call runs first, and no sink has been called when run returns. A
  program that consists of the call alone ends with an empty log and the callback, which
  is the computation inside its try, still waiting.
\<close>

theorem run_defers:
  "exec (run task sinks) w =
     (w\<lparr>queue := queue w @ [try_catch (fn task sinks) (reject sinks)]\<rparr>, None)
   \<and> exec (run task sinks @ rest) w =
     exec rest (w\<lparr>queue := queue w @ [try_catch (fn task sinks) (reject sinks)]\<rparr>)
   \<and> start (run task sinks) =
     \<lparr>log = [], queue = [try_catch (fn task sinks) (reject sinks)], uncaught = []\<rparr>"
  by (simp add: run_def immediate_def start_def turn_def)

theorem run_defers_witness:
  "exec (run resolve_then_throw watching) idle =
     (idle\<lparr>queue := [[Call (Resolve 1), Call (Reject (Value ''boom''))]]\<rparr>, None)"
  using run_defers [of resolve_then_throw watching idle]
  by (simp add: resolve_then_throw_def Task_create_def watching_def idle_def)




section \<open>Task.filter\<close>

text \<open>
  C5. A literal given to Task.filter is turned, when the task is built, into the test for
  equality with that literal, a function is taken as the test itself, and validate is
  filter. Run on a source that resolves with \<open>v\<close>, the task built from the literal \<open>c\<close>
  resolves with \<open>v\<close> when \<open>v\<close> equals \<open>c\<close> and rejects otherwise; the one built from
  the function \<open>f\<close> resolves when \<open>f v\<close> holds.
\<close>

theorem filter_literal:
  fixes c v :: 'v
    and source :: "('e, 'v, 'p, 'x) Task"
  shows "Task_filter (Literal c) source = Task_filter (Fn (\<lambda>val. c = val)) source
   \<and> validate predicate source = Task_filter predicate source
   \<and> log (turn (turn (start (run (validate (Literal c) (Task_of v))
        (watching :: ('e, 'v, 'p, ('e, 'v, 'p) call) TaskSinks))))) =
       [if v = c then Resolve v else Reject Null]
   \<and> log (turn (turn (start (run (validate (Fn f) (Task_of v))
        (watching :: ('e, 'v, 'p, ('e, 'v, 'p) call) TaskSinks))))) =
       [if f v then Resolve v else Reject Null]"
  by (auto simp add: validate_def Task_filter_def filterFn_def isEqual_def fun_eq_iff
      start_def turn_def run_def immediate_def Task_of_def watching_def)

theorem filter_literal_witness:
  "log (turn (turn (start (run (validate (Literal (3::nat)) (Task_of 3))
      (watching :: (string, nat, unit, (string, nat, unit) call) TaskSinks))))) = [Resolve 3]
   \<and> log (turn (turn (start (run (validate (Literal (3::nat)) (Task_of 4))
      (watching :: (string, nat, unit, (string, nat, unit) call) TaskSinks))))) = [Reject Null]"
  using
    filter_literal [where c = "3::nat" and v = 3 and f = "\<lambda>n. True"
      and source = "throw_at_once" and predicate = "Literal 3"
      and ?'e = string and ?'p = unit]
    filter_literal [where c = "3::nat" and v = 4 and f = "\<lambda>n. True"
      and source = "throw_at_once" and predicate = "Literal 3"
      and ?'e = string and ?'p = unit]
  by simp

text \<open>
  C10. For every test, every scripted source and every sinks, running the filtered task is
  running, one turn later, the source with each resolve of a value that fails the test
  replaced by a reject with \<open>null\<close>, and every other call, a reject of the source with
  its error among them, passed on unchanged. So a source that resolves with a value that
  fails the test ends in one call, reject with \<open>null\<close>, and a value that passes is
  resolved unchanged.
\<close>

theorem filter_rejects_null:
  fixes predicate :: "'v TaskPredicate"
    and script :: "('e, ('e, 'v, 'p) call) prog"
    and sinks :: "('e, 'v, 'p, 'x) TaskSinks"
  shows "run (Task_filter predicate (scripted script)) sinks =
     immediate (run (scripted (relabel (settle (filterFn predicate)) script)) sinks)
   \<and> log (turn (turn (start (run (Task_filter predicate (scripted [Call (Resolve v)]))
        (watching :: ('e, 'v, 'p, ('e, 'v, 'p) call) TaskSinks))))) =
       [if filterFn predicate v then Resolve v else Reject Null]
   \<and> log (turn (turn (start (run (Task_filter predicate (scripted [Call (Reject err)]))
        (watching :: ('e, 'v, 'p, ('e, 'v, 'p) call) TaskSinks))))) =
       [Reject err]"
  by (simp add: Task_filter_def scripted_def Task_create_def run_def immediate_def
      perform_filter_sinks settle_def start_def turn_def watching_def)

theorem filter_rejects_null_witness:
  "log (turn (turn (start (run (Task_filter (Fn (\<lambda>n. 5 < n)) (scripted [Call (Resolve (3::nat))]))
      (watching :: (string, nat, unit, (string, nat, unit) call) TaskSinks))))) = [Reject Null]
   \<and> log (turn (turn (start (run (Task_filter (Fn (\<lambda>n. 5 < n)) (scripted [Call (Resolve (9::nat))]))
      (watching :: (string, nat, unit, (string, nat, unit) call) TaskSinks))))) = [Resolve 9]"
  using
    filter_rejects_null [where predicate = "Fn (\<lambda>n. 5 < n)" and v = "3::nat"
      and script = "[]" and err = Null
      and sinks = "watching :: (string, nat, unit, (string, nat, unit) call) TaskSinks"]
    filter_rejects_null [where predicate = "Fn (\<lambda>n. 5 < n)" and v = "9::nat"
      and script = "[]" and err = Null
      and sinks = "watching :: (string, nat, unit, (string, nat, unit) call) TaskSinks"]
  by (simp add: filterFn_def)

section \<open>Properties of the propagation wave\<close>

subsection \<open>What a wave leaves alone\<close>

lemma shape_length: "shape g' = shape g \<Longrightarrow> length (nodes g') = length (nodes g)"
  unfolding shape_def by (rule map_eq_imp_length_eq)

lemma shape_nth:
  assumes "shape g' = shape g" and "n < length (nodes g)"
  shows "children (nodes g' ! n) = children (nodes g ! n)"
    and "transform (nodes g' ! n) = transform (nodes g ! n)"
    and "observers (nodes g' ! n) = observers (nodes g ! n)"
proof -
  have len: "n < length (nodes g')" using assms shape_length by metis
  have "shape g' ! n = shape g ! n" using assms by simp
  then have "(children (nodes g' ! n), transform (nodes g' ! n), observers (nodes g' ! n)) =
      (children (nodes g ! n), transform (nodes g ! n), observers (nodes g ! n))"
    using assms(2) len by (simp add: shape_def)
  then show "children (nodes g' ! n) = children (nodes g ! n)"
    and "transform (nodes g' ! n) = transform (nodes g ! n)"
    and "observers (nodes g' ! n) = observers (nodes g ! n)" by simp_all
qed

lemma well_formed_shape:
  assumes "shape g' = shape g" and "well_formed g"
  shows "well_formed g'"
proof -
  have len: "length (nodes g') = length (nodes g)" using shape_length [OF assms(1)] .
  have kids: "children (nodes g' ! p) = children (nodes g ! p)" if "p < length (nodes g)" for p
    using shape_nth(1) [OF assms(1) that] .
  show ?thesis
    unfolding well_formed_def len
  proof (intro allI impI)
    fix p assume p: "p < length (nodes g)"
    show "sorted (children (nodes g' ! p)) \<and>
      (\<forall>c\<in>set (children (nodes g' ! p)). p < c \<and> c < length (nodes g))"
      unfolding kids [OF p] using assms(2) p unfolding well_formed_def by blast
  qed
qed

lemma self_contained_shape:
  assumes "shape g' = shape g" and "self_contained g S"
  shows "self_contained g' S"
proof -
  have len: "length (nodes g') = length (nodes g)" using shape_length [OF assms(1)] .
  have kids: "children (nodes g' ! p) = children (nodes g ! p)" if "p < length (nodes g)" for p
    using shape_nth(1) [OF assms(1) that] .
  show ?thesis
    unfolding self_contained_def len
  proof (intro ballI impI)
    fix n assume n: "n \<in> S" "n < length (nodes g)"
    show "set (children (nodes g' ! n)) \<subseteq> S"
      unfolding kids [OF n(2)] using assms(2) n unfolding self_contained_def by blast
  qed
qed

lemma frame_refl: "frame S g g"
  by (simp add: frame_def)

lemma frame_trans: "frame S g h \<Longrightarrow> frame S h k \<Longrightarrow> frame S g k"
  by (auto simp: frame_def dest: shape_length)

lemma frame_shape: "frame S g g' \<Longrightarrow> shape g' = shape g"
  by (simp add: frame_def)

lemma shape_update:
  assumes "children m = children (nodes g ! s)" "transform m = transform (nodes g ! s)"
    "observers m = observers (nodes g ! s)"
  shows "shape (g\<lparr>nodes := (nodes g)[s := m], history := hs\<rparr>) = shape g"
proof (cases "s < length (nodes g)")
  case True
  then show ?thesis using assms by (simp add: shape_def map_update list_update_same_conv)
next
  case False
  then show ?thesis by (simp add: shape_def list_update_beyond)
qed

lemma frame_set_value: "s \<in> S \<Longrightarrow> frame S g (set_value g s v)"
proof -
  assume s: "s \<in> S"
  have "shape (set_value g s v) = shape g"
    unfolding set_value_def by (rule shape_update) simp_all
  moreover have "nodes (set_value g s v) ! n = nodes g ! n" if "n \<notin> S" for n
  proof -
    have "s \<noteq> n" using s that by blast
    then show ?thesis by (simp add: set_value_def)
  qed
  moreover have "off S (history (set_value g s v)) = off S (history g)"
    using s by (simp add: set_value_def off_def)
  ultimately show ?thesis by (simp add: frame_def set_value_def)
qed

lemma frame_schedule: "c \<in> S \<Longrightarrow> frame S g (schedule g c ms v)"
proof -
  assume c: "c \<in> S"
  have "shape (g\<lparr>nodes := (nodes g)[c := (nodes g ! c)\<lparr>pending := Some (now g + ms, v)\<rparr>],
      history := history g\<rparr>) = shape g"
    by (rule shape_update) simp_all
  then have "shape (schedule g c ms v) = shape g" by (simp add: schedule_def)
  moreover have "nodes (schedule g c ms v) ! n = nodes g ! n" if "n \<notin> S" for n
  proof -
    have "c \<noteq> n" using c that by blast
    then show ?thesis by (simp add: schedule_def)
  qed
  ultimately show ?thesis by (simp add: frame_def schedule_def)
qed

lemma frame_notify: "s \<in> S \<Longrightarrow> frame S g (notify g s previous v)"
  unfolding frame_def notify_def
  by (auto simp: off_def shape_def filter_empty_conv)

lemma propagate_rel:
  assumes "propagate step h cs = Some g'" and "R h"
    and "\<And>c k k'. c \<in> set cs \<Longrightarrow> R k \<Longrightarrow> step k c = Some k' \<Longrightarrow> R k'"
  shows "R g'"
  using assms
proof (induction cs arbitrary: h)
  case Nil
  then show ?case by simp
next
  case (Cons c cs)
  from Cons.prems(1) obtain k where k: "step h c = Some k" and rest: "propagate step k cs = Some g'"
    by (auto split: option.splits)
  have "R k" using Cons.prems(3) [of c h k] Cons.prems(2) k by simp
  moreover have "\<And>d m m'. d \<in> set cs \<Longrightarrow> R m \<Longrightarrow> step m d = Some m' \<Longrightarrow> R m'"
    using Cons.prems(3) by (meson list.set_intros(2))
  ultimately show ?case using Cons.IH [OF rest] by blast
qed

lemma propagate_total:
  assumes "I h"
    and "\<And>c k. c \<in> set cs \<Longrightarrow> I k \<Longrightarrow> \<exists>k'. step k c = Some k' \<and> I k'"
  shows "\<exists>g'. propagate step h cs = Some g' \<and> I g'"
  using assms
proof (induction cs arbitrary: h)
  case Nil
  then show ?case by simp
next
  case (Cons c cs)
  have "\<exists>k. step h c = Some k \<and> I k" using Cons.prems(2) [of c h] Cons.prems(1) by simp
  then obtain k where k: "step h c = Some k" "I k" by blast
  have "\<And>d m. d \<in> set cs \<Longrightarrow> I m \<Longrightarrow> \<exists>m'. step m d = Some m' \<and> I m'"
    using Cons.prems(2) by (meson list.set_intros(2))
  then have "\<exists>g'. propagate step k cs = Some g' \<and> I g'" using Cons.IH [OF k(2)] by blast
  then show ?case using k(1) by simp
qed

lemma propagate_append:
  "propagate step g (xs @ ys) =
     (case propagate step g xs of None \<Rightarrow> None | Some h \<Rightarrow> propagate step h ys)"
  by (induction xs arbitrary: g) (auto split: option.splits)

lemma deliver_cases:
  assumes "deliver push_child g c v = Some g'"
  obtains (stay) "g' = g"
    | (pushed) u where "push_child g c u = Some g'"
    | (timer) ms where "transform (nodes g ! c) = Debounce ms" "g' = schedule g c ms v"
proof -
  have c: "c < length (nodes g)" using assms by (simp add: deliver_def split: if_splits)
  show ?thesis
  proof (cases "transform (nodes g ! c)")
    case Source
    then have "g' = g" using assms c by (simp add: deliver_def)
    then show ?thesis by (rule stay)
  next
    case (Map f)
    then have "push_child g c (f v) = Some g'" using assms c by (simp add: deliver_def)
    then show ?thesis by (rule pushed)
  next
    case (Filter p)
    then have "g' = g \<or> push_child g c v = Some g'"
      using assms c by (simp add: deliver_def split: if_splits)
    then show ?thesis using stay pushed by blast
  next
    case (Fold f)
    then have "g' = g \<or> (\<exists>acc. push_child g c (f acc v) = Some g')"
      using assms c by (auto simp add: deliver_def split: option.splits)
    then show ?thesis using stay pushed by blast
  next
    case DropRepeats
    then have "g' = g \<or> push_child g c v = Some g'"
      using assms c by (simp add: deliver_def split: if_splits)
    then show ?thesis using stay pushed by blast
  next
    case Merge
    then have "push_child g c v = Some g'" using assms c by (simp add: deliver_def)
    then show ?thesis by (rule pushed)
  next
    case (Debounce ms)
    then have "g' = schedule g c ms v" using assms c by (simp add: deliver_def)
    then show ?thesis using Debounce timer by blast
  qed
qed

lemma deliver_frame:
  assumes "deliver push_child g c v = Some g'" and "c \<in> S"
    and "\<And>u. push_child g c u = Some g' \<Longrightarrow> frame S g g'"
  shows "frame S g g'"
  using assms(1)
proof (cases rule: deliver_cases)
  case stay
  then show ?thesis by (simp add: frame_refl)
next
  case (pushed u)
  then show ?thesis by (rule assms(3))
next
  case (timer ms)
  then show ?thesis using assms(2) by (simp add: frame_schedule)
qed

lemma wave_frame:
  "self_contained g S \<Longrightarrow> s \<in> S \<Longrightarrow> wave depth g s v = Some g' \<Longrightarrow> frame S g g'"
proof (induction depth arbitrary: g s v g')
  case 0
  then show ?case by simp
next
  case (Suc depth)
  let ?g1 = "set_value g s v"
  from Suc.prems(3) have s: "s < length (nodes g)" by (simp split: if_splits)
  from Suc.prems(3) s obtain h where
    h: "propagate (\<lambda>g' c. deliver (wave depth) g' c v) ?g1 (children (nodes g ! s)) = Some h"
    and g': "g' = notify h s (sig_value (nodes g ! s)) v"
    by (auto split: option.splits)
  have kids: "set (children (nodes g ! s)) \<subseteq> S"
    using Suc.prems(1,2) s by (auto simp: self_contained_def)
  have "frame S g h"
  proof (rule propagate_rel [OF h, where R = "frame S g"])
    show "frame S g ?g1" using Suc.prems(2) by (rule frame_set_value)
  next
    fix c k k'
    assume c: "c \<in> set (children (nodes g ! s))" and k: "frame S g k"
      and step: "deliver (wave depth) k c v = Some k'"
    have cl: "self_contained k S" using self_contained_shape [OF frame_shape [OF k]] Suc.prems(1) .
    have "frame S k k'"
      using step
    proof (rule deliver_frame)
      show "c \<in> S" using c kids by auto
    next
      fix u assume "wave depth k c u = Some k'"
      then show "frame S k k'" using Suc.IH cl c kids by blast
    qed
    then show "frame S g k'" using k frame_trans by blast
  qed
  moreover have "frame S h g'" unfolding g' using Suc.prems(2) by (rule frame_notify)
  ultimately show ?case by (rule frame_trans)
qed

lemma self_contained_UNIV: "self_contained g UNIV"
  by (simp add: self_contained_def)

lemma wave_shape:
  assumes "wave depth g s v = Some g'"
  shows "shape g' = shape g"
proof -
  have "frame UNIV g g'" using self_contained_UNIV UNIV_I assms by (rule wave_frame)
  then show ?thesis by (rule frame_shape)
qed

lemma deliver_shape:
  assumes "deliver (wave depth) g c v = Some g'"
  shows "shape g' = shape g"
proof -
  have "frame UNIV g g'"
    using assms UNIV_I
  proof (rule deliver_frame)
    fix u assume "wave depth g c u = Some g'"
    with self_contained_UNIV UNIV_I show "frame UNIV g g'" by (rule wave_frame)
  qed
  then show ?thesis by (rule frame_shape)
qed

subsection \<open>Every wave in a well-formed graph comes to an end\<close>

lemma deliver_total:
  assumes "c < length (nodes g)" and "\<And>u. \<exists>g'. push_child g c u = Some g'"
  shows "\<exists>g'. deliver push_child g c v = Some g'"
proof (cases "transform (nodes g ! c)")
  case (Fold f)
  show ?thesis
  proof (cases "sig_value (nodes g ! c)")
    case None
    then show ?thesis using Fold assms(1) by (simp add: deliver_def)
  next
    case (Some acc)
    then show ?thesis using Fold assms(1) assms(2) [of "f acc v"] by (simp add: deliver_def)
  qed
next
  case (Map f)
  then show ?thesis using assms(1) assms(2) [of "f v"] by (simp add: deliver_def)
next
  case (Filter p)
  then show ?thesis using assms(1) assms(2) [of v] by (simp add: deliver_def)
next
  case DropRepeats
  then show ?thesis using assms(1) assms(2) [of v] by (simp add: deliver_def)
next
  case Merge
  then show ?thesis using assms(1) assms(2) [of v] by (simp add: deliver_def)
qed (simp_all add: deliver_def assms(1))

lemma wave_Suc:
  "wave (Suc depth) g s v =
     (if s < length (nodes g) then
       (case propagate (\<lambda>g' c. deliver (wave depth) g' c v) (set_value g s v)
               (children (nodes g ! s)) of
          None \<Rightarrow> None
        | Some g' \<Rightarrow> Some (notify g' s (sig_value (nodes g ! s)) v))
     else None)"
  by simp

lemma wave_total:
  "well_formed g \<Longrightarrow> s < length (nodes g) \<Longrightarrow> length (nodes g) \<le> depth + s
   \<Longrightarrow> \<exists>g'. wave depth g s v = Some g'"
proof (induction depth arbitrary: g s v)
  case 0
  then show ?case by simp
next
  case (Suc depth)
  let ?g1 = "set_value g s v"
  have sh1: "shape ?g1 = shape g" using frame_set_value [of s UNIV g v] frame_shape by blast
  have "\<exists>h. propagate (\<lambda>g' c. deliver (wave depth) g' c v) ?g1 (children (nodes g ! s)) = Some h
      \<and> shape h = shape g"
  proof (rule propagate_total [where I = "\<lambda>k. shape k = shape g"])
    show "shape ?g1 = shape g" by (rule sh1)
  next
    fix c k
    assume c: "c \<in> set (children (nodes g ! s))" and k: "shape k = shape g"
    have cb: "s < c \<and> c < length (nodes g)"
      using Suc.prems(1,2) c unfolding well_formed_def by blast
    have wfk: "well_formed k" using well_formed_shape [OF k Suc.prems(1)] .
    have len: "length (nodes k) = length (nodes g)" using shape_length [OF k] .
    have ck: "c < length (nodes k)" using cb len by simp
    have fuel: "length (nodes k) \<le> depth + c" using cb len Suc.prems(3) by simp
    have ih: "\<exists>k'. wave depth k c u = Some k'" for u
      using wfk ck fuel by (rule Suc.IH)
    have "\<exists>k'. deliver (wave depth) k c v = Some k'"
      using ck ih by (rule deliver_total)
    then obtain k' where k': "deliver (wave depth) k c v = Some k'" by blast
    have "shape k' = shape k" using k' by (rule deliver_shape)
    then show "\<exists>k'. deliver (wave depth) k c v = Some k' \<and> shape k' = shape g"
      using k' k by simp
  qed
  then obtain h where
    "propagate (\<lambda>g' c. deliver (wave depth) g' c v) ?g1 (children (nodes g ! s)) = Some h"
    by blast
  then show ?case using Suc.prems(2) unfolding wave_Suc by simp
qed

lemma push_total: "well_formed g \<Longrightarrow> s < length (nodes g) \<Longrightarrow> \<exists>g'. push g s v = Some g'"
  unfolding push_def by (rule wave_total) auto

lemma push_frame: "self_contained g S \<Longrightarrow> s \<in> S \<Longrightarrow> push g s v = Some g' \<Longrightarrow> frame S g g'"
  unfolding push_def by (rule wave_frame)

subsection \<open>The history of one node\<close>

lemma here_off: "s \<notin> S \<Longrightarrow> here s (off S es) = here s es"
  by (induction es) (auto simp: here_def off_def)

lemma frame_here:
  assumes "frame S g g'" and "s \<notin> S"
  shows "here s (history g') = here s (history g)"
proof -
  have "off S (history g') = off S (history g)" using assms(1) by (simp add: frame_def)
  then have "here s (off S (history g')) = here s (off S (history g))" by simp
  then show ?thesis using assms(2) by (simp add: here_off)
qed

lemma frame_node: "frame S g g' \<Longrightarrow> s \<notin> S \<Longrightarrow> s < length (nodes g) \<Longrightarrow> nodes g' ! s = nodes g ! s"
  by (simp add: frame_def)

lemma off_off: "S \<subseteq> T \<Longrightarrow> off T (off S es) = off T es"
  by (induction es) (auto simp: off_def)

lemma frame_mono:
  assumes "frame S g g'" and "S \<subseteq> T"
  shows "frame T g g'"
proof -
  have "off S (history g') = off S (history g)" using assms(1) by (simp add: frame_def)
  then have "off T (off S (history g')) = off T (off S (history g))" by simp
  then have "off T (history g') = off T (history g)" using assms(2) by (simp add: off_off)
  moreover have "nodes g' ! n = nodes g ! n" if "n \<notin> T" "n < length (nodes g)" for n
  proof -
    have "n \<notin> S" using that(1) assms(2) by blast
    with assms(1) show ?thesis using that(2) by (rule frame_node)
  qed
  ultimately show ?thesis using assms(1) by (simp add: frame_def)
qed

lemma pushed_values_here: "pushed_values s (here s es) = pushed_values s es"
  by (induction s es rule: pushed_values.induct) (simp_all add: here_def)


lemma pushed_values_append [simp]:
  "pushed_values s (xs @ ys) = pushed_values s xs @ pushed_values s ys"
  by (induction s xs rule: pushed_values.induct) simp_all

lemma calls_of_append [simp]:
  "calls_of s ob (xs @ ys) = calls_of s ob xs @ calls_of s ob ys"
  by (induction s ob xs rule: calls_of.induct) simp_all

lemma propagate_frame:
  assumes "propagate (\<lambda>g' c. deliver (wave depth) g' c v) g cs = Some h"
    and "self_contained g S" and "set cs \<subseteq> S"
  shows "frame S g h"
proof (rule propagate_rel [OF assms(1), where R = "frame S g"])
  show "frame S g g" by (rule frame_refl)
next
  fix c k k'
  assume c: "c \<in> set cs" and k: "frame S g k" and step: "deliver (wave depth) k c v = Some k'"
  have cl: "self_contained k S" using self_contained_shape [OF frame_shape [OF k] assms(2)] .
  have cS: "c \<in> S" using c assms(3) by blast
  have "frame S k k'"
    using step cS
  proof (rule deliver_frame)
    fix u assume "wave depth k c u = Some k'"
    with cl cS show "frame S k k'" by (rule wave_frame)
  qed
  with k show "frame S g k'" by (rule frame_trans)
qed

subsection \<open>The wave at its own node\<close>

lemma well_formed_child:
  assumes "well_formed g" and "p < length (nodes g)" and "c \<in> set (children (nodes g ! p))"
  shows "p < c" and "c < length (nodes g)"
  using assms unfolding well_formed_def by blast+

lemma self_contained_above:
  assumes "well_formed g"
  shows "self_contained g {n. s < n}"
  unfolding self_contained_def
proof (intro ballI impI subsetI)
  fix n c
  assume n: "n \<in> {n. s < n}" "n < length (nodes g)" and c: "c \<in> set (children (nodes g ! n))"
  have "n < c" using assms n(2) c by (rule well_formed_child)
  then show "c \<in> {n. s < n}" using n(1) by simp
qed

lemma wave_at:
  assumes "well_formed g" and "wave depth g s v = Some g'"
  shows "nodes g' ! s = (nodes g ! s)\<lparr>sig_value := Some v\<rparr>"
    and "here s (history g') = here s (history g) @ Pushed s v #
           map (\<lambda>(w, ob). Called s ob v)
             (filter (\<lambda>(w, ob). w = Always \<or> sig_value (nodes g ! s) \<noteq> Some v)
                (observers (nodes g ! s)))"
    and "frame {n. s \<le> n} g g'"
proof -
  obtain k where depth: "depth = Suc k" using assms(2) by (cases depth) simp_all
  let ?g1 = "set_value g s v"
  let ?S = "{n. s < n}"
  have s: "s < length (nodes g)" using assms(2) unfolding depth wave_Suc by (simp split: if_splits)
  obtain h where
    h: "propagate (\<lambda>g' c. deliver (wave k) g' c v) ?g1 (children (nodes g ! s)) = Some h"
    and g': "g' = notify h s (sig_value (nodes g ! s)) v"
    using assms(2) s unfolding depth wave_Suc by (auto split: option.splits)
  have sh1: "shape ?g1 = shape g" using frame_set_value [of s UNIV g v] frame_shape by blast
  have cl: "self_contained ?g1 ?S" using self_contained_shape [OF sh1 self_contained_above [OF assms(1)]] .
  have kids: "set (children (nodes g ! s)) \<subseteq> ?S" using well_formed_child(1) [OF assms(1) s] by blast
  have fr: "frame ?S ?g1 h" using h cl kids by (rule propagate_frame)
  have len1: "length (nodes ?g1) = length (nodes g)" by (simp add: set_value_def)
  have "nodes h ! s = nodes ?g1 ! s" using fr s len1 by (simp add: frame_def)
  then show "nodes g' ! s = (nodes g ! s)\<lparr>sig_value := Some v\<rparr>"
    using s by (simp add: g' notify_def set_value_def)
  have obs: "observers (nodes h ! s) = observers (nodes g ! s)"
    using shape_nth(3) [OF frame_shape [OF fr]] shape_nth(3) [OF sh1 s] s len1 by simp
  have "here s (history h) = here s (history ?g1)" using fr by (rule frame_here) simp
  then show "here s (history g') = here s (history g) @ Pushed s v #
           map (\<lambda>(w, ob). Called s ob v)
             (filter (\<lambda>(w, ob). w = Always \<or> sig_value (nodes g ! s) \<noteq> Some v)
                (observers (nodes g ! s)))"
    by (simp add: g' notify_def obs set_value_def here_def filter_map o_def case_prod_unfold)
  have "frame {n. s \<le> n} g ?g1" by (rule frame_set_value) simp
  moreover have "frame {n. s \<le> n} ?g1 h" using fr by (rule frame_mono) auto
  moreover have "frame {n. s \<le> n} h g'" unfolding g' by (rule frame_notify) simp
  ultimately show "frame {n. s \<le> n} g g'" using frame_trans by blast
qed

lemma push_shape: "push g s v = Some g' \<Longrightarrow> shape g' = shape g"
  unfolding push_def by (rule wave_shape)

lemma push_wf:
  assumes "push g s v = Some g'" and "well_formed g"
  shows "well_formed g'"
  using push_shape [OF assms(1)] assms(2) by (rule well_formed_shape)

lemma well_formed_sorted: "well_formed g \<Longrightarrow> p < length (nodes g) \<Longrightarrow> sorted (children (nodes g ! p))"
  unfolding well_formed_def by blast

lemma push_split:
  assumes "well_formed g" and "p < length (nodes g)" and "children (nodes g ! p) = xs @ c # ys"
  obtains k h1 h2 h3 where
    "length (nodes g) = Suc k"
    "propagate (\<lambda>g' c. deliver (wave k) g' c v) (set_value g p v) xs = Some h1"
    "deliver (wave k) h1 c v = Some h2"
    "propagate (\<lambda>g' c. deliver (wave k) g' c v) h2 ys = Some h3"
    "push g p v = Some (notify h3 p (sig_value (nodes g ! p)) v)"
proof -
  obtain k where k: "length (nodes g) = Suc k" using assms(2) by (cases "length (nodes g)") simp_all
  obtain g' where g': "push g p v = Some g'" using push_total [OF assms(1,2)] by blast
  let ?step = "\<lambda>g' c. deliver (wave k) g' c v"
  have pk: "p < Suc k" using assms(2) k by simp
  have "wave (Suc k) g p v = Some g'" using g' unfolding push_def k .
  then obtain h3 where
    h3: "propagate ?step (set_value g p v) (xs @ c # ys) = Some h3"
    and g'_eq: "g' = notify h3 p (sig_value (nodes g ! p)) v"
    unfolding wave_Suc k using pk assms(3) by (auto split: option.splits)
  from h3 obtain h1 where h1: "propagate ?step (set_value g p v) xs = Some h1"
    and rest: "propagate ?step h1 (c # ys) = Some h3"
    unfolding propagate_append by (auto split: option.splits)
  from rest obtain h2 where h2: "deliver (wave k) h1 c v = Some h2"
    and h3': "propagate ?step h2 ys = Some h3"
    by (auto split: option.splits)
  show ?thesis using that [OF k h1 h2 h3'] g' g'_eq by simp
qed


lemma set_value_shape: "shape (set_value g s v) = shape g"
  using frame_set_value [of s UNIV g v] frame_shape by blast


subsection \<open>A push into a parent of a merge node\<close>



subsection \<open>A push that a filter child refuses\<close>


subsection \<open>Observers registered by onChange\<close>




subsection \<open>The combinators build well-formed graphs\<close>





lemma well_formed_empty: "well_formed empty_graph"
  by (simp add: well_formed_def empty_graph_def)

lemma well_formed_create:
  assumes "well_formed g"
  shows "well_formed (fst (create g initial))"
  unfolding well_formed_def
proof (intro allI impI)
  fix p assume p: "p < length (nodes (fst (create g initial)))"
  show "sorted (children (nodes (fst (create g initial)) ! p)) \<and>
      (\<forall>c\<in>set (children (nodes (fst (create g initial)) ! p)).
          p < c \<and> c < length (nodes (fst (create g initial))))"
  proof (cases "p < length (nodes g)")
    case True
    then have "nodes (fst (create g initial)) ! p = nodes g ! p"
      by (simp add: create_def nth_append)
    then show ?thesis
      using well_formed_sorted [OF assms True] well_formed_child [OF assms True]
      by (auto simp: create_def less_SucI)
  next
    case False
    then have "p = length (nodes g)" using p by (simp add: create_def)
    then show ?thesis by (simp add: create_def fresh_def)
  qed
qed

lemma link_length: "length (foldl (link child) ns parents) = length ns"
  by (induction parents arbitrary: ns) (simp_all add: link_def)

lemma link_children:
  "p < length ns \<Longrightarrow>
   children (foldl (link child) ns parents ! p) =
     children (ns ! p) @ replicate (count_list parents p) child"
proof (induction parents arbitrary: ns)
  case Nil
  then show ?case by simp
next
  case (Cons q parents)
  have len: "p < length (link child ns q)" using Cons.prems by (simp add: link_def)
  have "children (link child ns q ! p) =
      children (ns ! p) @ (if q = p then [child] else [])"
    using Cons.prems by (simp add: link_def nth_list_update)
  then show ?case using Cons.IH [OF len] by (simp add: replicate_append_same)
qed

lemma well_formed_derive:
  assumes "well_formed g"
  shows "well_formed (fst (derive g parents t initial))"
  unfolding well_formed_def
proof (intro allI impI)
  let ?g' = "fst (derive g parents t initial)"
  let ?N = "length (nodes g)"
  fix p assume p: "p < length (nodes ?g')"
  have len: "length (nodes ?g') = Suc ?N" by (simp add: derive_def link_length)
  show "sorted (children (nodes ?g' ! p)) \<and>
      (\<forall>c\<in>set (children (nodes ?g' ! p)). p < c \<and> c < length (nodes ?g'))"
  proof (cases "p < ?N")
    case True
    have kids: "children (nodes ?g' ! p) =
        children (nodes g ! p) @ replicate (count_list parents p) ?N"
      using True by (simp add: derive_def nth_append link_length link_children)
    have old: "\<forall>c\<in>set (children (nodes g ! p)). p < c \<and> c < ?N"
      using well_formed_child [OF assms True] by blast
    have "sorted (children (nodes g ! p) @ replicate (count_list parents p) ?N)"
      using well_formed_sorted [OF assms True] old by (auto simp: sorted_append less_imp_le)
    then show ?thesis unfolding kids len using old True by auto
  next
    case False
    then have "p = ?N" using p len by simp
    moreover have "nodes ?g' ! ?N = fresh initial t"
      by (simp add: derive_def nth_append link_length)
    ultimately show ?thesis by (simp add: fresh_def)
  qed
qed




subsection \<open>A push into the parent of an only child\<close>

lemma sole_child_shape:
  assumes "shape g' = shape g" and "sole_child g p c"
  shows "sole_child g' p c"
proof -
  have len: "length (nodes g') = length (nodes g)" using shape_length [OF assms(1)] .
  show ?thesis
    unfolding sole_child_def len
  proof (intro allI impI)
    fix n assume n: "n < length (nodes g)"
    show "count_list (children (nodes g' ! n)) c = (if n = p then 1 else 0)"
      unfolding shape_nth(1) [OF assms(1) n] using assms(2) n unfolding sole_child_def by blast
  qed
qed

lemma sole_child_count:
  "sole_child g p c \<Longrightarrow> n < length (nodes g) \<Longrightarrow>
   count_list (children (nodes g ! n)) c = (if n = p then 1 else 0)"
  unfolding sole_child_def by blast

lemma sole_child_split:
  assumes "well_formed g" and "p < length (nodes g)" and "sole_child g p c"
  obtains xs ys where "children (nodes g ! p) = xs @ c # ys"
    and "set xs \<subseteq> {n. p < n \<and> n \<noteq> c}" and "set ys \<subseteq> {n. p < n \<and> n \<noteq> c}"
    and "self_contained g {n. p < n \<and> n \<noteq> c}" and "p < c" and "c < length (nodes g)"
proof -
  have one: "count_list (children (nodes g ! p)) c = 1"
    using sole_child_count [OF assms(3,2)] by simp
  then have "c \<in> set (children (nodes g ! p))"
    using count_list_0_iff [of "children (nodes g ! p)" c] by auto
  then obtain xs ys where kids: "children (nodes g ! p) = xs @ c # ys"
    using split_list by fastforce
  have "count_list xs c + count_list ys c = 0" using one unfolding kids by simp
  then have notin: "c \<notin> set xs" "c \<notin> set ys" by (simp_all add: count_list_0_iff)
  have above: "p < k" if "k \<in> set (children (nodes g ! p))" for k
    using well_formed_child(1) [OF assms(1,2) that] .
  have xs: "set xs \<subseteq> {n. p < n \<and> n \<noteq> c}" using above notin(1) unfolding kids by auto
  have ys: "set ys \<subseteq> {n. p < n \<and> n \<noteq> c}" using above notin(2) unfolding kids by auto
  have sc: "self_contained g {n. p < n \<and> n \<noteq> c}"
    unfolding self_contained_def
  proof (intro ballI impI subsetI)
    fix n k
    assume n: "n \<in> {n. p < n \<and> n \<noteq> c}" "n < length (nodes g)"
      and k: "k \<in> set (children (nodes g ! n))"
    have "n < k" using assms(1) n(2) k by (rule well_formed_child)
    moreover have "count_list (children (nodes g ! n)) c = 0"
      using sole_child_count [OF assms(3) n(2)] n(1) by simp
    then have "k \<noteq> c" using k by (auto simp: count_list_0_iff)
    ultimately show "k \<in> {n. p < n \<and> n \<noteq> c}" using n(1) by simp
  qed
  have c: "p < c" "c < length (nodes g)"
    using well_formed_child [OF assms(1,2), of c] kids by simp_all
  show ?thesis using that [OF kids xs ys sc c] .
qed

lemma push_sole_child:
  assumes "well_formed g" and "p < length (nodes g)" and "sole_child g p c"
  obtains k h1 h2 g' where "length (nodes g) = Suc k"
    and "frame (insert p {n. p < n \<and> n \<noteq> c}) g h1"
    and "deliver (wave k) h1 c v = Some h2"
    and "frame (insert p {n. p < n \<and> n \<noteq> c}) h2 g'"
    and "push g p v = Some g'"
proof -
  let ?S = "{n. p < n \<and> n \<noteq> c}"
  obtain xs ys where kids: "children (nodes g ! p) = xs @ c # ys"
    and xs: "set xs \<subseteq> ?S" and ys: "set ys \<subseteq> ?S" and sc: "self_contained g ?S"
    by (rule sole_child_split [OF assms])
  obtain k h1 h2 h3 where k: "length (nodes g) = Suc k"
    and h1: "propagate (\<lambda>g' c. deliver (wave k) g' c v) (set_value g p v) xs = Some h1"
    and h2: "deliver (wave k) h1 c v = Some h2"
    and h3: "propagate (\<lambda>g' c. deliver (wave k) g' c v) h2 ys = Some h3"
    and g': "push g p v = Some (notify h3 p (sig_value (nodes g ! p)) v)"
    by (rule push_split [OF assms(1,2) kids])
  have sc0: "self_contained (set_value g p v) ?S"
    using set_value_shape sc by (rule self_contained_shape)
  have "frame ?S (set_value g p v) h1" using h1 sc0 xs by (rule propagate_frame)
  then have "frame (insert p ?S) (set_value g p v) h1" by (rule frame_mono) blast
  moreover have "frame (insert p ?S) g (set_value g p v)" by (rule frame_set_value) simp
  ultimately have f1: "frame (insert p ?S) g h1" using frame_trans by blast
  have sh2: "shape h2 = shape g"
    using deliver_shape [OF h2] frame_shape [OF f1] by simp
  have sc2: "self_contained h2 ?S" using sh2 sc by (rule self_contained_shape)
  have "frame ?S h2 h3" using h3 sc2 ys by (rule propagate_frame)
  then have "frame (insert p ?S) h2 h3" by (rule frame_mono) blast
  moreover have "frame (insert p ?S) h3 (notify h3 p (sig_value (nodes g ! p)) v)"
    by (rule frame_notify) simp
  ultimately have f2: "frame (insert p ?S) h2 (notify h3 p (sig_value (nodes g ! p)) v)"
    using frame_trans by blast
  show ?thesis using that [OF k f1 h2 f2 g'] .
qed

lemma frame_pushed_values:
  assumes "frame S g g'" and "s \<notin> S"
  shows "pushed_values s (history g') = pushed_values s (history g)"
proof -
  have "here s (history g') = here s (history g)" using assms by (rule frame_here)
  then have "pushed_values s (here s (history g')) = pushed_values s (here s (history g))" by simp
  then show ?thesis by (simp only: pushed_values_here)
qed

lemma pushed_values_calls: "pushed_values s (map (\<lambda>(w, ob). Called n ob v) xs) = []"
  by (induction xs) auto

lemma wave_pushed_values:
  assumes "well_formed g" and "wave depth g s v = Some g'"
  shows "pushed_values s (history g') = pushed_values s (history g) @ [v]"
proof -
  have "pushed_values s (history g') = pushed_values s (here s (history g'))"
    by (simp only: pushed_values_here)
  also have "\<dots> = pushed_values s (here s (history g)) @ [v]"
    unfolding wave_at(2) [OF assms] by (simp add: pushed_values_calls)
  finally show ?thesis by (simp only: pushed_values_here)
qed

lemma fold_push:
  assumes "well_formed g" and "p < length (nodes g)" and "sole_child g p c"
    and "transform (nodes g ! c) = Fold f" and "sig_value (nodes g ! c) = Some acc"
  shows "\<exists>g'. push g p v = Some g' \<and> sig_value (nodes g' ! c) = Some (f acc v) \<and>
     pushed_values c (history g') = pushed_values c (history g) @ [f acc v]"
proof -
  let ?S = "insert p {n. p < n \<and> n \<noteq> c}"
  obtain xs ys where pc: "p < c" and c: "c < length (nodes g)"
    by (rule sole_child_split [OF assms(1,2,3)])
  have cS: "c \<notin> ?S" using pc by simp
  obtain k h1 h2 g' where f1: "frame ?S g h1" and h2: "deliver (wave k) h1 c v = Some h2"
    and f2: "frame ?S h2 g'" and g': "push g p v = Some g'"
    by (rule push_sole_child [OF assms(1,2,3)])
  have sh1: "shape h1 = shape g" using f1 by (rule frame_shape)
  have wf1: "well_formed h1" using sh1 assms(1) by (rule well_formed_shape)
  have c1: "c < length (nodes h1)" using shape_length [OF sh1] c by simp
  have n1: "nodes h1 ! c = nodes g ! c" using f1 cS c by (rule frame_node)
  have w: "wave k h1 c (f acc v) = Some h2"
    using h2 c1 assms(4,5) by (simp add: deliver_def n1)
  have sh2: "shape h2 = shape h1" using w by (rule wave_shape)
  have c2: "c < length (nodes h2)" using shape_length [OF sh2] c1 by simp
  have "nodes g' ! c = nodes h2 ! c" using f2 cS c2 by (rule frame_node)
  then have "sig_value (nodes g' ! c) = Some (f acc v)"
    using wave_at(1) [OF wf1 w] by simp
  moreover have "pushed_values c (history g') = pushed_values c (history g) @ [f acc v]"
    using frame_pushed_values [OF f2 cS] wave_pushed_values [OF wf1 w]
      frame_pushed_values [OF f1 cS] by simp
  ultimately show ?thesis using g' by simp
qed

lemma fold_pushes:
  assumes "well_formed g" and "p < length (nodes g)" and "sole_child g p c"
    and "transform (nodes g ! c) = Fold f" and "sig_value (nodes g ! c) = Some acc"
  shows "\<exists>g'. pushes g (map (Pair p) vs) = Some g' \<and>
     sig_value (nodes g' ! c) = Some (foldl f acc vs) \<and>
     pushed_values c (history g') = pushed_values c (history g) @ running f acc vs"
  using assms
proof (induction vs arbitrary: g acc)
  case Nil
  then show ?case by simp
next
  case (Cons v vs)
  obtain g1 where g1: "push g p v = Some g1"
    and val: "sig_value (nodes g1 ! c) = Some (f acc v)"
    and hist: "pushed_values c (history g1) = pushed_values c (history g) @ [f acc v]"
    using fold_push [OF Cons.prems] by blast
  have sh: "shape g1 = shape g" using g1 by (rule push_shape)
  have wf1: "well_formed g1" using sh Cons.prems(1) by (rule well_formed_shape)
  have p1: "p < length (nodes g1)" using shape_length [OF sh] Cons.prems(2) by simp
  have sc1: "sole_child g1 p c" using sh Cons.prems(3) by (rule sole_child_shape)
  obtain xs ys where c: "c < length (nodes g)"
    by (rule sole_child_split [OF Cons.prems(1,2,3)])
  have t1: "transform (nodes g1 ! c) = Fold f"
    using shape_nth(2) [OF sh c] Cons.prems(4) by simp
  obtain g' where "pushes g1 (map (Pair p) vs) = Some g'"
    and "sig_value (nodes g' ! c) = Some (foldl f (f acc v) vs)"
    and "pushed_values c (history g') = pushed_values c (history g1) @ running f (f acc v) vs"
    using Cons.IH [OF wf1 p1 sc1 t1 val] by blast
  then show ?case using g1 hist by simp
qed









lemma derive_node:
  "nodes (fst (derive g parents t initial)) ! length (nodes g) = fresh initial t"
  by (simp add: derive_def nth_append link_length)

lemma derive_length: "length (nodes (fst (derive g parents t initial))) = Suc (length (nodes g))"
  by (simp add: derive_def link_length)

lemma derive_children:
  "n < length (nodes g) \<Longrightarrow>
   children (nodes (fst (derive g parents t initial)) ! n) =
     children (nodes g ! n) @ replicate (count_list parents n) (length (nodes g))"
  by (simp add: derive_def nth_append link_length link_children)

lemma derive_sole_child:
  assumes "well_formed g" and "s < length (nodes g)"
  shows "sole_child (fst (derive g [s] t initial)) s (length (nodes g))"
  unfolding sole_child_def derive_length
proof (intro allI impI)
  let ?g' = "fst (derive g [s] t initial)"
  let ?N = "length (nodes g)"
  fix n assume n: "n < Suc ?N"
  show "count_list (children (nodes ?g' ! n)) ?N = (if n = s then 1 else 0)"
  proof (cases "n < ?N")
    case True
    have "?N \<notin> set (children (nodes g ! n))"
      using well_formed_child(2) [OF assms(1) True] by blast
    then have "count_list (children (nodes g ! n)) ?N = 0" by (simp add: count_list_0_iff)
    then show ?thesis unfolding derive_children [OF True] by auto
  next
    case False
    then have "n = ?N" using n by simp
    then show ?thesis using assms(2) by (simp add: derive_node fresh_def)
  qed
qed

lemma derive_child:
  assumes "well_formed g" and "s < length (nodes g)"
  shows "case derive g [s] t initial of (g1, c) \<Rightarrow>
     well_formed g1 \<and> s < length (nodes g1) \<and> sole_child g1 s c \<and>
     transform (nodes g1 ! c) = t \<and> sig_value (nodes g1 ! c) = initial \<and>
     pending (nodes g1 ! c) = None"
proof -
  let ?g1 = "fst (derive g [s] t initial)"
  have eq: "derive g [s] t initial = (?g1, length (nodes g))"
    by (simp add: derive_def)
  have "s < length (nodes ?g1)" using assms(2) unfolding derive_length by simp
  moreover have "well_formed ?g1" using assms(1) by (rule well_formed_derive)
  moreover have "sole_child ?g1 s (length (nodes g))" using assms by (rule derive_sole_child)
  moreover have "nodes ?g1 ! length (nodes g) = fresh initial t" by (rule derive_node)
  ultimately have "well_formed ?g1 \<and> s < length (nodes ?g1) \<and>
     sole_child ?g1 s (length (nodes g)) \<and>
     transform (nodes ?g1 ! length (nodes g)) = t \<and>
     sig_value (nodes ?g1 ! length (nodes g)) = initial \<and>
     pending (nodes ?g1 ! length (nodes g)) = None"
    by (simp add: fresh_def)
  then show ?thesis by (subst eq) simp
qed

lemma well_formed_start: "well_formed (fst (create empty_graph initial))"
  by (intro well_formed_create well_formed_empty)

subsection \<open>Runs of pushes into the parent of a debounce node\<close>






section \<open>filter\<close>





section \<open>merge\<close>



section \<open>onChange\<close>



section \<open>fold\<close>

text \<open>
  C2. The child that fold makes of a signal starts with the seed as its value. Whenever
  \<open>c\<close> is a fold child of \<open>p\<close> with combining function \<open>f\<close> that holds \<open>acc\<close>,
  pushing the values \<open>vs\<close> into \<open>p\<close> one after the other comes to an end; each of
  them reaches the child, which is pushed the combination of the value it held with the
  one that arrived, so that in the end it holds the left fold of \<open>f\<close> over \<open>vs\<close> from
  \<open>acc\<close>.
\<close>

theorem fold_accumulates:
  "(well_formed g0 \<and> s < length (nodes g0) \<longrightarrow>
      (case fold_signal g0 s f seed of (g1, c) \<Rightarrow>
         well_formed g1 \<and> s < length (nodes g1) \<and> sole_child g1 s c \<and>
         transform (nodes g1 ! c) = Fold f \<and> sig_value (nodes g1 ! c) = Some seed))
   \<and> (well_formed g \<and> p < length (nodes g) \<and> sole_child g p c \<and>
       transform (nodes g ! c) = Fold f \<and> sig_value (nodes g ! c) = Some acc \<longrightarrow>
      (\<exists>g'. pushes g (map (Pair p) vs) = Some g' \<and>
         sig_value (nodes g' ! c) = Some (foldl f acc vs) \<and>
         pushed_values c (history g') = pushed_values c (history g) @ running f acc vs))"
proof (intro conjI impI)
  assume a: "well_formed g0 \<and> s < length (nodes g0)"
  have "case derive g0 [s] (Fold f) (Some seed) of (g1, c) \<Rightarrow>
     well_formed g1 \<and> s < length (nodes g1) \<and> sole_child g1 s c \<and>
     transform (nodes g1 ! c) = Fold f \<and> sig_value (nodes g1 ! c) = Some seed \<and>
     pending (nodes g1 ! c) = None"
    using conjunct1 [OF a] conjunct2 [OF a] by (rule derive_child)
  then show "case fold_signal g0 s f seed of (g1, c) \<Rightarrow>
         well_formed g1 \<and> s < length (nodes g1) \<and> sole_child g1 s c \<and>
         transform (nodes g1 ! c) = Fold f \<and> sig_value (nodes g1 ! c) = Some seed"
    unfolding fold_signal_def by (simp add: case_prod_unfold)
next
  assume b: "well_formed g \<and> p < length (nodes g) \<and> sole_child g p c \<and>
       transform (nodes g ! c) = Fold f \<and> sig_value (nodes g ! c) = Some acc"
  then have "well_formed g" "p < length (nodes g)" "sole_child g p c"
    "transform (nodes g ! c) = Fold f" "sig_value (nodes g ! c) = Some acc" by simp_all
  then show "\<exists>g'. pushes g (map (Pair p) vs) = Some g' \<and>
         sig_value (nodes g' ! c) = Some (foldl f acc vs) \<and>
         pushed_values c (history g') = pushed_values c (history g) @ running f acc vs"
    by (rule fold_pushes)
qed

theorem fold_accumulates_witness:
  "\<exists>g'. pushes hello_graph [(0, ''h''), (0, ''e''), (0, ''l''), (0, ''l''), (0, ''o'')] = Some g'
     \<and> sig_value (nodes g' ! 1) = Some ''hello''"
proof -
  let ?g0 = "fst (create empty_graph None) :: string graph"
  have made: "fold_signal ?g0 0 append_text [] = (hello_graph, 1)"
    by (simp add: hello_graph_def fold_signal_def derive_def create_def empty_graph_def)
  have pre: "well_formed ?g0 \<and> 0 < length (nodes ?g0)"
    using well_formed_start [of None] by (simp add: create_def empty_graph_def)
  have "case fold_signal ?g0 0 append_text [] of (g1, c) \<Rightarrow>
         well_formed g1 \<and> 0 < length (nodes g1) \<and> sole_child g1 0 c \<and>
         transform (nodes g1 ! c) = Fold append_text \<and> sig_value (nodes g1 ! c) = Some []"
    using conjunct1 [OF fold_accumulates [where ?g0.0 = ?g0 and s = 0 and f = append_text
          and seed = "[]"]] pre by (rule mp)
  then have built: "well_formed hello_graph \<and> 0 < length (nodes hello_graph) \<and>
      sole_child hello_graph 0 1 \<and> transform (nodes hello_graph ! 1) = Fold append_text \<and>
      sig_value (nodes hello_graph ! 1) = Some []"
    unfolding made by simp
  have "\<exists>g'. pushes hello_graph (map (Pair 0) [''h'', ''e'', ''l'', ''l'', ''o'']) = Some g' \<and>
         sig_value (nodes g' ! 1) = Some (foldl append_text [] [''h'', ''e'', ''l'', ''l'', ''o'']) \<and>
         pushed_values 1 (history g') = pushed_values 1 (history hello_graph) @
           running append_text [] [''h'', ''e'', ''l'', ''l'', ''o'']"
    using conjunct2 [OF fold_accumulates [where g = hello_graph and p = 0 and c = 1
          and f = append_text and acc = "[]" and vs = "[''h'', ''e'', ''l'', ''l'', ''o'']"]]
      built by (rule mp)
  then show ?thesis by (auto simp: append_text_def)
qed

section \<open>dropRepeats\<close>



section \<open>debounce\<close>



end
